theory Spec2Isabelle
  imports Main "HOL-Library.Sublist"
begin

section \<open>Strings and the regular expressions of \<open>app.js\<close>\<close>

text \<open>
  A JavaScript string is a sequence of UTF-16 code units. It is modelled as a
  \<^typ>\<open>string\<close>, one \<^typ>\<open>char\<close> standing for one code unit in the range
  0..255 (code units above that range are outside the model).

  \<open>\s\<close> is the ECMAScript white space class; below 256 it holds TAB, LF, VT, FF,
  CR, SPACE and NO-BREAK SPACE. \<open>[^\s]\<close> and \<open>\S\<close> are both its complement.
  \<open>\w\<close> is \<open>[A-Za-z0-9_]\<close>; \<open>\b\<close> holds between two positions of which exactly
  one is a \<open>\w\<close> character (the outside of the string counts as not \<open>\w\<close>).
\<close>

definition is_space :: "char \<Rightarrow> bool" where
  "is_space c = (of_char c \<in> {9::nat, 10, 11, 12, 13, 32, 160})"

definition is_word :: "char \<Rightarrow> bool" where
  "is_word c =
     (let n = (of_char c :: nat)
      in (65 \<le> n \<and> n \<le> 90) \<or> (97 \<le> n \<and> n \<le> 122) \<or> (48 \<le> n \<and> n \<le> 57) \<or> n = 95)"

fun is_word_opt :: "char option \<Rightarrow> bool" where
  "is_word_opt None = False"
| "is_word_opt (Some c) = is_word c"

definition word_boundary :: "char option \<Rightarrow> char option \<Rightarrow> bool" where
  "word_boundary prev after = (is_word_opt prev \<noteq> is_word_opt after)"

text \<open>
  A regular expression is modelled by what it does at one position of the subject:
  given the code unit before the position (\<open>None\<close> at the start of the string) and
  the rest of the subject from the position on, it yields the length of the match
  that starts here and its capture groups, or \<open>None\<close>. One code unit of context is
  all that \<open>^\<close> and \<open>\b\<close> look at.
\<close>

type_synonym regex = "char option \<Rightarrow> string \<Rightarrow> (nat \<times> string list) option"

fun char_at :: "string \<Rightarrow> nat \<Rightarrow> char option" where
  "char_at [] n = None"
| "char_at (c # cs) 0 = Some c"
| "char_at (c # cs) (Suc n) = char_at cs n"

text \<open>A literal pattern such as \<open>/redirect=/\<close> or \<open>/exists:/\<close>.\<close>

definition lit :: "string \<Rightarrow> regex" where
  "lit p prev s = (if prefix p s then Some (length p, []) else None)"

text \<open>
  \<open>/include:([^\s]+)/\<close>, \<open>/include:([\S]+)/\<close> and \<open>/redirect=([\S]+)/\<close>: a literal
  followed by a greedy, non-empty run of non-white-space, which is group 1.
\<close>

definition lit_run :: "string \<Rightarrow> regex" where
  "lit_run p prev s =
     (if prefix p s
      then (let run = takeWhile (\<lambda>c. \<not> is_space c) (drop (length p) s)
            in if run = [] then None else Some (length p + length run, [run]))
      else None)"

text \<open>\<open>/\ba\b/\<close>, \<open>/\bmx\b/\<close> and \<open>/\bptr\b/\<close>: a literal between two word boundaries.\<close>

definition bword :: "string \<Rightarrow> regex" where
  "bword w prev s =
     (if prefix w s \<and> word_boundary prev (char_at w 0)
         \<and> word_boundary (char_at w (length w - 1)) (char_at s (length w))
      then Some (length w, []) else None)"

text \<open>\<open>/^"|"$/\<close>: a double quote at the start of the subject, or else one at its end.\<close>

definition quote_edge :: regex where
  "quote_edge prev s =
     (if prev = None \<and> prefix [CHR 0x22] s then Some (1, [])
      else if s = [CHR 0x22] then Some (1, [])
      else None)"

text \<open>
  The matches of a global regular expression, left to right, as the loop
  \<open>while ((match = re.exec(s)) !== null)\<close> and \<open>s.match(re)\<close> find them: the search
  resumes where the last match ended. No pattern of this program matches the empty
  string; for completeness the scan moves one code unit on after an empty match, as
  \<open>s.match\<close> does.
\<close>

datatype rmatch = RMatch (index: nat) (matched: string) (groups: "string list")

function exec_all :: "regex \<Rightarrow> nat \<Rightarrow> char option \<Rightarrow> string \<Rightarrow> rmatch list" where
  "exec_all re i prev [] =
     (case re prev [] of None \<Rightarrow> [] | Some (n, gs) \<Rightarrow> [RMatch i [] gs])"
| "exec_all re i prev (c # cs) =
     (case re prev (c # cs) of
        None \<Rightarrow> exec_all re (i + 1) (Some c) cs
      | Some (n, gs) \<Rightarrow>
          RMatch i (take n (c # cs)) gs #
          (if n = 0 then exec_all re (i + 1) (Some c) cs
           else exec_all re (i + n) (char_at (c # cs) (n - 1)) (drop n (c # cs))))"
  by pat_completeness auto
termination
  by (relation "measure (\<lambda>(re, i, prev, s). length s)") auto

text \<open>\<open>s.match(re) || []\<close> for a global \<open>re\<close>: the matched substrings.\<close>

definition match_g :: "regex \<Rightarrow> string \<Rightarrow> string list" where
  "match_g re s = map matched (exec_all re 0 None s)"

text \<open>\<open>s.replace(re, rep)\<close> for a global \<open>re\<close> and a replacement free of \<open>$\<close>.\<close>

function replace_g :: "regex \<Rightarrow> string \<Rightarrow> char option \<Rightarrow> string \<Rightarrow> string" where
  "replace_g re rep prev [] = (case re prev [] of None \<Rightarrow> [] | Some (n, gs) \<Rightarrow> rep)"
| "replace_g re rep prev (c # cs) =
     (case re prev (c # cs) of
        None \<Rightarrow> c # replace_g re rep (Some c) cs
      | Some (n, gs) \<Rightarrow>
          (if n = 0 then rep @ c # replace_g re rep (Some c) cs
           else rep @ replace_g re rep (char_at (c # cs) (n - 1)) (drop n (c # cs))))"
  by pat_completeness auto
termination
  by (relation "measure (\<lambda>(re, rep, prev, s). length s)") auto

text \<open>\<open>s.replace(pat, rep)\<close> for a string \<open>pat\<close>: the first occurrence only.\<close>

fun replace_first :: "string \<Rightarrow> string \<Rightarrow> string \<Rightarrow> string" where
  "replace_first pat rep [] = (if pat = [] then rep else [])"
| "replace_first pat rep (c # cs) =
     (if prefix pat (c # cs) then rep @ drop (length pat) (c # cs)
      else c # replace_first pat rep cs)"

section \<open>The DNS resolver: \<open>fetchSPFRecords\<close> and \<open>fetchIncludedDomain\<close>\<close>

text \<open>
  What the network does with the one request of a call, \<open>await fetch(...)\<close> followed
  by \<open>await response.json()\<close>:
  \<^item> \<open>Rejected msg\<close>: the exchange fails and the awaited promise rejects with an
    error whose message is \<open>msg\<close> (\<open>fetch\<close> rejects; or the response is \<open>ok\<close> but
    its body is not JSON, and \<open>response.json()\<close> rejects);
  \<^item> \<open>Response ok statusText body\<close>: a response arrives, with its \<open>ok\<close> flag and
    \<open>statusText\<close>; \<open>body\<close> is what \<open>response.json()\<close> yields, which the code reads
    only when \<open>ok\<close> holds.
  The parsed body has the shape the resolver documents,
  \<open>{ Status: integer, Answer?: [{ type: integer, data: string }, ...] }\<close>; a body of
  another shape is outside the model. The network is a function from the queried
  name to the outcome; within one traversal no name is requested twice.
\<close>

record answer =
  type :: int
  data :: string

record dns_json =
  Status :: int
  Answer :: "answer list option"

datatype http_result =
    Rejected string
  | Response (ok: bool) (statusText: string) (json: dns_json)

type_synonym network = "string \<Rightarrow> http_result"

text \<open>\<open>record.data.replace(/^"|"$/g, '')\<close>\<close>

definition strip_quotes :: "string \<Rightarrow> string" where
  "strip_quotes s = replace_g quote_edge [] None s"

datatype error = Error (message: string)

definition fetchSPFRecords :: "network \<Rightarrow> string \<Rightarrow> error + string list" where
  "fetchSPFRecords net domain =
     (case net domain of
        Rejected msg \<Rightarrow> Inl (Error msg)
      | Response is_ok status_text body \<Rightarrow>
          if \<not> is_ok then Inl (Error (''DNS lookup failed: '' @ status_text))
          else if Status body \<noteq> 0 then Inl (Error ''DNS query failed - domain may not exist'')
          else (case Answer body of
                  None \<Rightarrow> Inr []
                | Some answers \<Rightarrow>
                    Inr (filter (\<lambda>record. prefix ''v=spf1'' record)
                          (map (\<lambda>record. strip_quotes (data record))
                            (filter (\<lambda>record. type record = 16) answers)))))"

text \<open>
  \<open>fetchIncludedDomain\<close> wraps the call in \<open>try\<close>/\<open>catch\<close>; the result type keeps
  an error branch so that "it does not raise" is a statement about the function.
\<close>

definition fetchIncludedDomain :: "network \<Rightarrow> string \<Rightarrow> error + string" where
  "fetchIncludedDomain net domain =
     (case fetchSPFRecords net domain of
        Inr records \<Rightarrow>
          Inr (case records of r # _ \<Rightarrow> r | [] \<Rightarrow> ''No SPF record found'')
      | Inl err \<Rightarrow> Inr (''Error: '' @ message err))"

section \<open>The evaluator: \<open>countDNSLookups\<close> and \<open>extractIncludes\<close>\<close>

definition includeMatches :: "string \<Rightarrow> string list" where
  "includeMatches spfRecord = match_g (lit_run ''include:'') spfRecord"

definition includeDomains :: "string \<Rightarrow> string list" where
  "includeDomains spfRecord =
     map (\<lambda>m. replace_first ''include:'' [] m) (includeMatches spfRecord)"

text \<open>The six \<open>count += ...\<close> lines before the loop.\<close>

definition direct_count :: "string \<Rightarrow> nat" where
  "direct_count spfRecord =
     length (includeMatches spfRecord)
     + length (match_g (lit ''redirect='') spfRecord)
     + length (match_g (bword ''a'') spfRecord)
     + length (match_g (bword ''mx'') spfRecord)
     + length (match_g (bword ''ptr'') spfRecord)
     + length (match_g (lit ''exists:'') spfRecord)"

text \<open>
  The state threaded through one traversal: the \<open>visited\<close> set, which the source
  mutates in place and shares between all recursive calls, and the names for which
  \<open>fetchSPFRecords\<close> was called, oldest first (its one outbound request per call).
\<close>

record traversal =
  visited :: "string set"
  requests :: "string list"

definition fresh :: traversal where
  "fresh = \<lparr>visited = {}, requests = []\<rparr>"

definition visit :: "string \<Rightarrow> traversal \<Rightarrow> traversal" where
  "visit domain t = \<lparr>visited = insert domain (visited t), requests = requests t @ [domain]\<rparr>"

text \<open>
  \<open>countDNSLookups\<close> returns the count and the state it leaves; \<open>count_loop\<close> is its
  \<open>for (const domain of includeDomains)\<close> loop, with \<open>count\<close> as accumulator. The
  \<open>catch (err) {}\<close> is the \<open>Inl\<close> branch.
\<close>

function countDNSLookups :: "network \<Rightarrow> string \<Rightarrow> traversal \<Rightarrow> int \<Rightarrow> nat \<times> traversal"
  and count_loop :: "network \<Rightarrow> string list \<Rightarrow> nat \<Rightarrow> traversal \<Rightarrow> int \<Rightarrow> nat \<times> traversal"
where
  "countDNSLookups net spfRecord t depth =
     (if depth > 10 then (0, t)
      else count_loop net (includeDomains spfRecord) (direct_count spfRecord) t depth)"
| "count_loop net [] count t depth = (count, t)"
| "count_loop net (domain # rest) count t depth =
     (if domain \<in> visited t then count_loop net rest count t depth
      else (case fetchSPFRecords net domain of
              Inl err \<Rightarrow> count_loop net rest count (visit domain t) depth
            | Inr [] \<Rightarrow> count_loop net rest count (visit domain t) depth
            | Inr (r # rs) \<Rightarrow>
                (case countDNSLookups net r (visit domain t) (depth + 1) of
                   (nestedCount, t') \<Rightarrow> count_loop net rest (count + nestedCount) t' depth)))"
  by pat_completeness auto
termination
proof (relation "(\<lambda>x. case x of
          Inl (net, spfRecord, t, depth) \<Rightarrow> (if depth > 10 then 0 else 2 * nat (11 - depth) + 2)
        | Inr (net, ds, count, t, depth) \<Rightarrow> 2 * nat (11 - depth) + 1) <*mlex*> measure (\<lambda>x. case x of
          Inl _ \<Rightarrow> 0
        | Inr (net, ds, count, t, depth) \<Rightarrow> length ds)", goal_cases)
  case 1
  show ?case by (simp add: wf_mlex)
next
  case 2
  then show ?case by (auto intro!: mlex_less)
next
  case 3
  show ?case by (rule mlex_leq) auto
next
  case 4
  show ?case by (rule mlex_leq) auto
next
  case 5
  show ?case by (rule mlex_leq) auto
next
  case 6
  show ?case by (rule mlex_less) auto
next
  case 7
  show ?case by (rule mlex_leq) auto
qed

text \<open>
  \<open>extractIncludes\<close>: two \<open>exec\<close> loops pushing onto one array. The field \<open>type\<close>
  of the pushed objects is \<open>etype\<close> here (\<open>type\<close> is a field of \<open>answer\<close> already);
  \<open>match[1]\<close> is the first capture group.
\<close>

record edge =
  etype :: string
  domain :: string

definition extractIncludes :: "string \<Rightarrow> edge list" where
  "extractIncludes spfRecord =
     map (\<lambda>m. \<lparr>etype = ''include'', domain = groups m ! 0\<rparr>)
       (exec_all (lit_run ''include:'') 0 None spfRecord)
     @ map (\<lambda>m. \<lparr>etype = ''redirect'', domain = groups m ! 0\<rparr>)
       (exec_all (lit_run ''redirect='') 0 None spfRecord)"

section \<open>Notions used to state the properties\<close>

text \<open>\<open>occurs_at s i w\<close>: the substring of \<open>s\<close> that starts at index \<open>i\<close> is \<open>w\<close>.\<close>

definition occurs_at :: "string \<Rightarrow> nat \<Rightarrow> string \<Rightarrow> bool" where
  "occurs_at s i w = (take (length w) (drop i s) = w)"

text \<open>The answer set of a response body (\<open>Answer\<close> may be absent).\<close>

definition answers_of :: "dns_json \<Rightarrow> answer list" where
  "answers_of body = (case Answer body of None \<Rightarrow> [] | Some answers \<Rightarrow> answers)"

text \<open>Whether an edge is an \<open>include\<close> edge, and whether it is a \<open>redirect\<close> edge.\<close>

definition is_include :: "edge \<Rightarrow> bool" where
  "is_include e = (etype e = ''include'')"

definition is_redirect :: "edge \<Rightarrow> bool" where
  "is_redirect e = (etype e = ''redirect'')"

text \<open>
  The words of a record: its maximal runs of code units that are not white space,
  from left to right.
\<close>

function words_of :: "string \<Rightarrow> string list" where
  "words_of [] = []"
| "words_of (c # cs) =
     (if is_space c then words_of cs
      else takeWhile (\<lambda>c. \<not> is_space c) (c # cs) # words_of (dropWhile (\<lambda>c. \<not> is_space c) cs))"
  by pat_completeness auto
termination
  by (relation "measure length") (auto simp: length_dropWhile_le less_Suc_eq_le)

text \<open>
  What a word carries for the prefix \<open>p\<close>: the text after the first place of the word
  where \<open>p\<close> stands with something after it; at most one target per word.
\<close>

fun word_target :: "string \<Rightarrow> string \<Rightarrow> string list" where
  "word_target p [] = []"
| "word_target p (c # cs) =
     (if prefix p (c # cs) \<and> drop (length p) (c # cs) \<noteq> [] then [drop (length p) (c # cs)]
      else word_target p cs)"

text \<open>The targets of all words of a record, in the order of the words.\<close>

definition targets :: "string \<Rightarrow> string \<Rightarrow> string list" where
  "targets p r = concat (map (word_target p) (words_of r))"

text \<open>
  \<open>extends t t'\<close>: the traversal \<open>t'\<close> comes from \<open>t\<close> by visiting and requesting some
  names that \<open>t\<close> had not visited, each once.
\<close>

definition extends :: "traversal \<Rightarrow> traversal \<Rightarrow> bool" where
  "extends t t' =
     (\<exists>new. t' = \<lparr>visited = visited t \<union> set new, requests = requests t @ new\<rparr>
            \<and> distinct new \<and> set new \<inter> visited t = {})"

text \<open>
  The direct cost of the first SPF record of a domain; 0 when the domain has no
  SPF record or the resolver fails.
\<close>

definition nested_direct :: "network \<Rightarrow> string \<Rightarrow> nat" where
  "nested_direct net d =
     (case fetchSPFRecords net d of Inl err \<Rightarrow> 0 | Inr [] \<Rightarrow> 0 | Inr (r # rs) \<Rightarrow> direct_count r)"


text \<open>The network in which every name whose resolution fails has no TXT answer instead.\<close>

definition failures_as_empty :: "network \<Rightarrow> network" where
  "failures_as_empty net d =
     (if isl (fetchSPFRecords net d) then Response True ''OK'' \<lparr>Status = 0, Answer = None\<rparr>
      else net d)"

subsection \<open>A small network to run the functions on\<close>

text \<open>
  \<open>txt_response rs\<close> is a successful response whose answers are the TXT records \<open>rs\<close>, each
  wrapped in double quotes as the resolver sends them.
\<close>

definition txt_response :: "string list \<Rightarrow> http_result" where
  "txt_response rs = Response True ''OK''
     \<lparr>Status = 0, Answer = Some (map (\<lambda>r. \<lparr>type = 16, data = [CHR 0x22] @ r @ [CHR 0x22]\<rparr>) rs)\<rparr>"

definition plain_body :: dns_json where
  "plain_body =
     \<lparr>Status = 0,
      Answer = Some [\<lparr>type = 16, data = [CHR 0x22] @ ''site-verification=1'' @ [CHR 0x22]\<rparr>,
                     \<lparr>type = 5, data = ''v=spf1.example.''\<rparr>]\<rparr>"

definition example_net :: network where
  "example_net d =
     (if d = ''a.com'' then txt_response [''v=spf1 include:b.com -all'']
      else if d = ''b.com'' then txt_response [''v=spf1 include:a.com -all'']
      else if d = ''x.org'' then txt_response [''v=spf1 mx -all'', ''v=spf1 -all'']
      else if d = ''_spf.google.com'' then txt_response [''v=spf1 ip4:2.2.2.2 -all'']
      else if d = ''plain.org'' then Response True ''OK'' plain_body
      else if d = ''empty.org'' then Response True ''OK'' \<lparr>Status = 0, Answer = None\<rparr>
      else if d = ''nx.org'' then Response True ''OK'' \<lparr>Status = 3, Answer = None\<rparr>
      else if d = ''gw.org'' then Response False ''Bad Gateway'' \<lparr>Status = 0, Answer = None\<rparr>
      else Rejected ''Failed to fetch'')"

text \<open>
  A chain of records, each with one \<open>include:\<close> of the next domain: the domains
  are \<open>n.org\<close>, \<open>nn.org\<close>, \<open>nnn.org\<close> and so on.
\<close>

definition chain_domain :: "nat \<Rightarrow> string" where
  "chain_domain i = replicate i (CHR ''n'') @ ''.org''"

definition chain_record :: "nat \<Rightarrow> string" where
  "chain_record i = ''v=spf1 include:'' @ chain_domain (Suc i) @ '' -all''"

definition chain_net :: network where
  "chain_net d = txt_response [chain_record (length (takeWhile (\<lambda>c. c = CHR ''n'') d))]"

section \<open>Facts about the regular expressions\<close>

lemma replace_first_prefix: "replace_first p rep (p @ xs) = rep @ xs"
proof (cases "p @ xs")
  case Nil
  then show ?thesis by simp
next
  case (Cons a list)
  have "prefix p (p @ xs)" by simp
  then have "replace_first p rep (p @ xs) = rep @ drop (length p) (p @ xs)"
    unfolding Cons by simp
  then show ?thesis by simp
qed

text \<open>What a match of \<open>/p([^\s]+)/\<close> looks like.\<close>

lemma lit_run_Some:
  assumes "lit_run p prev s = Some (n, gs)"
  shows "\<exists>run. run \<noteq> [] \<and> take n s = p @ run \<and> gs = [run] \<and> n = length p + length run
               \<and> (\<forall>c\<in>set run. \<not> is_space c)"
proof -
  from assms have pre: "prefix p s"
    by (auto simp: lit_run_def split: if_splits)
  then obtain rest where s: "s = p @ rest" by (auto simp: prefix_def)
  define run where "run = takeWhile (\<lambda>c. \<not> is_space c) rest"
  from assms s have ne: "run \<noteq> []" and n: "n = length p + length run" and gs: "gs = [run]"
    by (auto simp: lit_run_def run_def Let_def split: if_splits)
  have "take (length run) rest = run"
    unfolding run_def by (metis takeWhile_eq_take)
  then have "take n s = p @ run" by (simp add: s n)
  moreover have "\<forall>c\<in>set run. \<not> is_space c"
    unfolding run_def by (auto dest: set_takeWhileD)
  ultimately show ?thesis using ne n gs by blast
qed

lemma exec_all_lit_run:
  "m \<in> set (exec_all (lit_run p) i prev s) \<Longrightarrow>
     \<exists>run. run \<noteq> [] \<and> matched m = p @ run \<and> groups m = [run] \<and> (\<forall>c\<in>set run. \<not> is_space c)"
proof (induction "lit_run p" i prev s rule: exec_all.induct)
  case (1 i prev)
  have "lit_run p prev [] = None" by (simp add: lit_run_def)
  with 1 show ?case by simp
next
  case (2 i prev c cs)
  show ?case
  proof (cases "lit_run p prev (c # cs)")
    case None
    with 2 show ?thesis by simp
  next
    case (Some a)
    obtain n gs where a: "a = (n, gs)" by (cases a)
    from lit_run_Some[OF Some[unfolded a]] obtain run where
      run: "run \<noteq> []" "take n (c # cs) = p @ run" "gs = [run]" "n = length p + length run"
           "\<forall>c\<in>set run. \<not> is_space c" by blast
    then have n0: "n \<noteq> 0" by simp
    from "2.prems" Some a n0 have
      "m = RMatch i (take n (c # cs)) gs \<or>
       m \<in> set (exec_all (lit_run p) (i + n) (char_at (c # cs) (n - 1)) (drop n (c # cs)))"
      by simp
    then show ?thesis
    proof
      assume "m = RMatch i (take n (c # cs)) gs"
      with run show ?thesis by simp
    next
      assume "m \<in> set (exec_all (lit_run p) (i + n) (char_at (c # cs) (n - 1)) (drop n (c # cs)))"
      with "2.hyps"(3)[OF Some[unfolded a] refl n0] show ?thesis by simp
    qed
  qed
qed

text \<open>Matches are found at increasing indices, and each is the substring at its index.\<close>

lemma exec_all_index_ge: "m \<in> set (exec_all re i prev s) \<Longrightarrow> i \<le> index m"
proof (induction re i prev s rule: exec_all.induct)
  case (1 re i prev)
  then show ?case by (auto split: option.splits)
next
  case (2 re i prev c cs)
  then show ?case by (fastforce split: option.splits if_splits)
qed

lemma exec_all_sorted: "sorted_wrt (<) (map index (exec_all re i prev s))"
proof (induction re i prev s rule: exec_all.induct)
  case (1 re i prev)
  then show ?case by (auto split: option.splits)
next
  case (2 re i prev c cs)
  then show ?case by (fastforce split: option.splits if_splits dest: exec_all_index_ge)
qed

lemma exec_all_occurs:
  "m \<in> set (exec_all re i prev s) \<Longrightarrow> occurs_at s (index m - i) (matched m)"
proof (induction re i prev s rule: exec_all.induct)
  case (1 re i prev)
  then show ?case by (auto simp: occurs_at_def split: option.splits)
next
  case (2 re i prev c cs)
  show ?case
  proof (cases "re prev (c # cs)")
    case None
    with 2 have m: "m \<in> set (exec_all re (i + 1) (Some c) cs)" by simp
    from exec_all_index_ge[OF m] have "index m - i = Suc (index m - (i + 1))" by simp
    with "2.IH"(1)[OF None m] show ?thesis by (simp add: occurs_at_def)
  next
    case (Some a)
    obtain n gs where a: "a = (n, gs)" by (cases a)
    note S = Some[unfolded a]
    consider (here) "m = RMatch i (take n (c # cs)) gs"
      | (skip) "n = 0" "m \<in> set (exec_all re (i + 1) (Some c) cs)"
      | (jump) "n \<noteq> 0" "m \<in> set (exec_all re (i + n) (char_at (c # cs) (n - 1)) (drop n (c # cs)))"
      using "2.prems" S by (auto split: if_splits)
    then show ?thesis
    proof cases
      case here
      have "take (length (take n (c # cs))) (c # cs) = take n (c # cs)"
        by (simp add: min_def)
      with here show ?thesis by (simp add: occurs_at_def)
    next
      case skip
      from exec_all_index_ge[OF skip(2)] have "index m - i = Suc (index m - (i + 1))" by simp
      with "2.IH"(2)[OF S refl skip(1) skip(2)] show ?thesis by (simp add: occurs_at_def)
    next
      case jump
      from exec_all_index_ge[OF jump(2)] have "index m - i = n + (index m - (i + n))" by simp
      with "2.IH"(3)[OF S refl jump(1) jump(2)] show ?thesis
        by (simp add: occurs_at_def add.commute)
    qed
  qed
qed

text \<open>
  The scan for \<open>/p([^\s]+)/g\<close> finds, word by word, the target each word carries,
  and it finds every \<open>p\<close>-token that white space or the ends of the record
  delimit, at the index of the token.
\<close>

lemma targets_split:
  "targets p s = word_target p (takeWhile (\<lambda>c. \<not> is_space c) s)
                 @ targets p (dropWhile (\<lambda>c. \<not> is_space c) s)"
proof (cases s)
  case Nil
  then show ?thesis by (simp add: targets_def)
next
  case (Cons c cs)
  then show ?thesis by (simp add: targets_def)
qed

lemma lit_run_None_word:
  assumes "lit_run p prev (c # cs) = None" "\<not> is_space c"
  shows "word_target p (takeWhile (\<lambda>c. \<not> is_space c) (c # cs))
         = word_target p (takeWhile (\<lambda>c. \<not> is_space c) cs)"
proof -
  let ?ns = "\<lambda>c. \<not> is_space c"
  let ?w = "takeWhile ?ns (c # cs)"
  have w: "?w = c # takeWhile ?ns cs" using assms(2) by simp
  have "\<not> (prefix p ?w \<and> drop (length p) ?w \<noteq> [])"
  proof
    assume a: "prefix p ?w \<and> drop (length p) ?w \<noteq> []"
    then obtain d where d: "?w = p @ d" "d \<noteq> []" by (auto simp: prefix_def)
    have "c # cs = ?w @ dropWhile ?ns (c # cs)" by simp
    with d have s: "c # cs = p @ d @ dropWhile ?ns (c # cs)" by simp
    have "hd d \<in> set ?w" using d by (cases d) auto
    then have "?ns (hd d)" by (auto dest: set_takeWhileD)
    then have "takeWhile ?ns (d @ dropWhile ?ns (c # cs)) \<noteq> []"
      using d(2) by (cases d) auto
    moreover have "prefix p (c # cs)" by (subst s) simp
    moreover have "drop (length p) (c # cs) = d @ dropWhile ?ns (c # cs)" by (subst s) simp
    ultimately have "lit_run p prev (c # cs) \<noteq> None"
      by (simp add: lit_run_def Let_def)
    with assms(1) show False by simp
  qed
  then have "\<not> (prefix p (c # takeWhile ?ns cs)
               \<and> drop (length p) (c # takeWhile ?ns cs) \<noteq> [])"
    unfolding w .
  then show ?thesis unfolding w
    by (subst word_target.simps(2)) (rule if_not_P)
qed

lemma lit_run_Some_word:
  assumes "lit_run p prev s = Some (n, gs)" and p: "\<forall>c\<in>set p. \<not> is_space c"
  shows "\<exists>run. run \<noteq> [] \<and> gs = [run] \<and> n = length p + length run
               \<and> takeWhile (\<lambda>c. \<not> is_space c) s = p @ run
               \<and> dropWhile (\<lambda>c. \<not> is_space c) s = drop n s"
proof -
  let ?ns = "\<lambda>c. \<not> is_space c"
  from assms(1) have pre: "prefix p s"
    by (auto simp: lit_run_def split: if_splits)
  then obtain rest where s: "s = p @ rest" by (auto simp: prefix_def)
  define run where "run = takeWhile ?ns rest"
  from assms(1) s have ne: "run \<noteq> []" and n: "n = length p + length run" and gs: "gs = [run]"
    by (auto simp: lit_run_def run_def Let_def split: if_splits)
  have tw: "takeWhile ?ns s = p @ run" unfolding s run_def using p by simp
  have "dropWhile ?ns s = dropWhile ?ns rest" unfolding s using p by simp
  also have "\<dots> = drop (length run) rest" unfolding run_def by (rule dropWhile_eq_drop)
  also have "\<dots> = drop n s" unfolding s n by simp
  finally show ?thesis using ne n gs tw by blast
qed

lemma exec_all_targets:
  assumes p: "\<forall>c\<in>set p. \<not> is_space c" and ne: "p \<noteq> []"
  shows "map (\<lambda>m. groups m ! 0) (exec_all (lit_run p) i prev s) = targets p s"
proof (induction "lit_run p" i prev s rule: exec_all.induct)
  case (1 i prev)
  have "lit_run p prev [] = None" by (simp add: lit_run_def)
  then show ?case by (simp add: targets_def)
next
  case (2 i prev c cs)
  let ?ns = "\<lambda>c. \<not> is_space c"
  show ?case
  proof (cases "lit_run p prev (c # cs)")
    case None
    with 2 have IH: "map (\<lambda>m. groups m ! 0) (exec_all (lit_run p) (i + 1) (Some c) cs) = targets p cs"
      by simp
    have "targets p (c # cs) = targets p cs"
    proof (cases "is_space c")
      case True
      then show ?thesis by (simp add: targets_def)
    next
      case False
      have "targets p (c # cs) = word_target p (takeWhile ?ns (c # cs)) @ targets p (dropWhile ?ns (c # cs))"
        by (rule targets_split)
      also have "\<dots> = word_target p (takeWhile ?ns cs) @ targets p (dropWhile ?ns cs)"
        using lit_run_None_word[OF None False] False by simp
      also have "\<dots> = targets p cs" by (rule targets_split[symmetric])
      finally show ?thesis .
    qed
    with None IH show ?thesis by simp
  next
    case (Some a)
    obtain n gs where a: "a = (n, gs)" by (cases a)
    note S = Some[unfolded a]
    from lit_run_Some_word[OF S p] obtain run where
      run: "run \<noteq> []" "gs = [run]" "n = length p + length run"
           "takeWhile ?ns (c # cs) = p @ run" "dropWhile ?ns (c # cs) = drop n (c # cs)" by blast
    then have n0: "n \<noteq> 0" by simp
    from "2.hyps"(3)[OF S refl n0]
    have IH: "map (\<lambda>m. groups m ! 0) (exec_all (lit_run p) (i + n) (char_at (c # cs) (n - 1)) (drop n (c # cs)))
                = targets p (drop n (c # cs))" .
    have wt: "word_target p (p @ run) = [run]"
    proof -
      from ne obtain a list where al: "p @ run = a # list" by (cases p) auto
      have "prefix p (a # list) \<and> drop (length p) (a # list) \<noteq> []"
        unfolding al[symmetric] using run(1) by simp
      then have "word_target p (a # list) = [drop (length p) (a # list)]"
        by (subst word_target.simps(2)) (rule if_P)
      then show ?thesis unfolding al[symmetric] by simp
    qed
    have "targets p (c # cs) = word_target p (takeWhile ?ns (c # cs)) @ targets p (dropWhile ?ns (c # cs))"
      by (rule targets_split)
    also have "\<dots> = run # targets p (drop n (c # cs))"
      unfolding run(4) run(5) wt by simp
    finally show ?thesis using S n0 IH run(2) by simp
  qed
qed

lemma takeWhile_before_space:
  assumes "pre \<noteq> []" "is_space (last pre)"
  shows "length (takeWhile (\<lambda>c. \<not> is_space c) (pre @ xs)) < length pre"
proof -
  let ?ns = "\<lambda>c. \<not> is_space c"
  have l: "last pre \<in> set pre" using assms(1) by simp
  with assms(2) have "takeWhile ?ns (pre @ xs) = takeWhile ?ns pre"
    by (intro takeWhile_append1[of "last pre"]) auto
  moreover have "takeWhile ?ns pre \<noteq> pre"
    using l assms(2) by (auto simp: takeWhile_eq_all_conv)
  then have "length (takeWhile ?ns pre) < length pre"
    by (metis length_takeWhile_le le_neq_implies_less takeWhile_eq_take take_all_iff order_refl)
  ultimately show ?thesis by simp
qed

lemma token_found:
  assumes p: "\<forall>c\<in>set p. \<not> is_space c" and ne: "p \<noteq> []"
    and dm: "dm \<noteq> []" "\<forall>c\<in>set dm. \<not> is_space c"
    and post: "post = [] \<or> is_space (hd post)"
  shows "s = pre @ p @ dm @ post \<Longrightarrow> pre = [] \<or> is_space (last pre) \<Longrightarrow>
         \<exists>m\<in>set (exec_all (lit_run p) i prev s).
            index m = i + length pre \<and> matched m = p @ dm \<and> groups m = [dm]"
proof (induction "lit_run p" i prev s arbitrary: pre rule: exec_all.induct)
  case (1 i prev)
  with ne show ?case by simp
next
  case (2 i prev c cs)
  let ?ns = "\<lambda>c. \<not> is_space c"
  show ?case
  proof (cases pre)
    case Nil
    have tw: "takeWhile ?ns (dm @ post) = dm"
      using dm(2) post by (cases post) auto
    from Nil "2.prems"(1) have s: "c # cs = p @ dm @ post" by simp
    have "lit_run p prev (c # cs) = Some (length p + length dm, [dm])"
      unfolding s using dm(1) by (simp add: lit_run_def tw)
    moreover have "take (length p + length dm) (c # cs) = p @ dm"
      unfolding s by simp
    ultimately have "RMatch i (p @ dm) [dm] \<in> set (exec_all (lit_run p) i prev (c # cs))"
      by simp
    with Nil show ?thesis by force
  next
    case (Cons a pre')
    with "2.prems"(1) have cs: "cs = pre' @ p @ dm @ post" and a: "a = c" by simp_all
    from Cons "2.prems"(2) have sp: "is_space (last pre)" by simp
    show ?thesis
    proof (cases "lit_run p prev (c # cs)")
      case None
      have "pre' = [] \<or> is_space (last pre')" using sp Cons by (cases pre') auto
      from "2.hyps"(1)[OF None cs this] obtain m where
        "m \<in> set (exec_all (lit_run p) (i + 1) (Some c) cs)"
        "index m = i + 1 + length pre'" "matched m = p @ dm" "groups m = [dm]" by blast
      with None Cons show ?thesis by auto
    next
      case (Some x)
      obtain n gs where x: "x = (n, gs)" by (cases x)
      note S = Some[unfolded x]
      from lit_run_Some_word[OF S p] obtain run where
        run: "run \<noteq> []" "n = length p + length run" "takeWhile ?ns (c # cs) = p @ run" by blast
      then have n0: "n \<noteq> 0" by simp
      have "length (takeWhile ?ns (pre @ p @ dm @ post)) < length pre"
        using sp Cons by (intro takeWhile_before_space) auto
      with "2.prems"(1) run have n_less: "n < length pre" by simp
      then have d: "drop n (c # cs) = drop n pre @ p @ dm @ post"
        using "2.prems"(1) by simp
      from n_less have "drop n pre \<noteq> []" by simp
      moreover from n_less have "last (drop n pre) = last pre" by simp
      ultimately have "drop n pre = [] \<or> is_space (last (drop n pre))" using sp by simp
      from "2.hyps"(3)[OF S refl n0 d this] obtain m where
        m: "m \<in> set (exec_all (lit_run p) (i + n) (char_at (c # cs) (n - 1)) (drop n (c # cs)))"
        "index m = i + n + length (drop n pre)" "matched m = p @ dm" "groups m = [dm]" by blast
      from m(2) n_less have "index m = i + length pre" by simp
      with m S n0 show ?thesis by auto
    qed
  qed
qed

lemma lit_chars:
  "\<forall>c\<in>set ''include:''. \<not> is_space c" "\<forall>c\<in>set ''redirect=''. \<not> is_space c"
  by code_simp+

text \<open>
  \<open>/^"|"$/g\<close> replaced by the empty string removes one leading double quote, if
  there is one, and then one trailing double quote, if there is one.
\<close>

lemma strip_inner:
  "replace_g quote_edge [] (Some p) s =
     (if s \<noteq> [] \<and> last s = CHR 0x22 then butlast s else s)"
proof (induction s arbitrary: p)
  case Nil
  show ?case by (simp add: quote_edge_def)
next
  case (Cons c cs)
  show ?case
  proof (cases "c # cs = [CHR 0x22]")
    case True
    then show ?thesis by (simp add: quote_edge_def)
  next
    case False
    then have "quote_edge (Some p) (c # cs) = None" by (simp add: quote_edge_def)
    then have "replace_g quote_edge [] (Some p) (c # cs) = c # replace_g quote_edge [] (Some c) cs"
      by simp
    with Cons[of c] False show ?thesis by auto
  qed
qed

lemma strip_quotes_eq:
  "strip_quotes s =
     (let s' = (if s \<noteq> [] \<and> hd s = CHR 0x22 then tl s else s)
      in if s' \<noteq> [] \<and> last s' = CHR 0x22 then butlast s' else s')"
proof (cases s)
  case Nil
  then show ?thesis by (simp add: strip_quotes_def quote_edge_def)
next
  case (Cons c cs)
  show ?thesis
  proof (cases "c = CHR 0x22")
    case True
    then have "quote_edge None (c # cs) = Some (1, [])" by (simp add: quote_edge_def)
    then have "replace_g quote_edge [] None (c # cs) = replace_g quote_edge [] (Some c) cs"
      by simp
    with True Cons show ?thesis by (simp add: strip_quotes_def strip_inner)
  next
    case False
    then have "quote_edge None (c # cs) = None" by (simp add: quote_edge_def)
    then have "replace_g quote_edge [] None (c # cs) = c # replace_g quote_edge [] (Some c) cs"
      by simp
    with False Cons show ?thesis by (simp add: strip_quotes_def strip_inner)
  qed
qed

section \<open>The DNS resolver\<close>

lemma fetchSPFRecords_fails_iff:
  "isl (fetchSPFRecords net d) \<longleftrightarrow>
     (case net d of Rejected msg \<Rightarrow> True | Response k st body \<Rightarrow> \<not> k \<or> Status body \<noteq> 0)"
  by (simp add: fetchSPFRecords_def split: http_result.splits option.splits)

lemma fetchSPFRecords_ok:
  assumes "net d = Response True st body" "Status body = 0"
  shows "fetchSPFRecords net d =
           Inr [strip_quotes (data a). a \<leftarrow> answers_of body, type a = 16,
                prefix ''v=spf1'' (strip_quotes (data a))]"
proof -
  have *: "filter P (map f (filter Q xs)) =
             concat (map (\<lambda>a. if Q a then if P (f a) then [f a] else [] else []) xs)"
    for P :: "string \<Rightarrow> bool" and f :: "answer \<Rightarrow> string" and Q xs
    by (induction xs) auto
  show ?thesis using assms
    by (simp add: fetchSPFRecords_def answers_of_def * split: option.splits)
qed

lemma fetchSPFRecords_all_spf:
  "fetchSPFRecords net d = Inr rs \<Longrightarrow> r \<in> set rs \<Longrightarrow> prefix ''v=spf1'' r"
  by (auto simp: fetchSPFRecords_def split: http_result.splits option.splits if_splits)

text \<open>The resolver on the small network.\<close>

lemma ex_x: "fetchSPFRecords example_net ''x.org'' = Inr [''v=spf1 mx -all'', ''v=spf1 -all'']"
  by code_simp
lemma ex_plain: "fetchSPFRecords example_net ''plain.org'' = Inr []"
  by code_simp
lemma ex_empty: "fetchSPFRecords example_net ''empty.org'' = Inr []"
  by code_simp
lemma ex_gw: "fetchSPFRecords example_net ''gw.org'' = Inl (Error ''DNS lookup failed: Bad Gateway'')"
  by code_simp
lemma ex_down: "fetchSPFRecords example_net ''down.org'' = Inl (Error ''Failed to fetch'')"
  by code_simp

text \<open>
  C8. \<open>fetchSPFRecords\<close> fails exactly when \<open>fetch\<close> rejects, the response is not
  \<open>ok\<close>, or \<open>Status\<close> is not 0. Otherwise it returns, in the order of the answers, the
  quote-stripped data of the TXT answers (type 16) that begin with \<open>v=spf1\<close>; so a
  response with no TXT answer, or with none that begins with \<open>v=spf1\<close>, gives the
  empty list, and every returned string begins with \<open>v=spf1\<close>.
\<close>

theorem fetchSPFRecords_results:
  "(isl (fetchSPFRecords net d) \<longleftrightarrow>
      (case net d of Rejected msg \<Rightarrow> True | Response k st body \<Rightarrow> \<not> k \<or> Status body \<noteq> 0))
   \<and> (\<forall>st body. net d = Response True st body \<and> Status body = 0 \<longrightarrow>
         fetchSPFRecords net d =
           Inr [strip_quotes (data a). a \<leftarrow> answers_of body, type a = 16,
                prefix ''v=spf1'' (strip_quotes (data a))])
   \<and> (\<forall>st body. net d = Response True st body \<and> Status body = 0
         \<and> (\<forall>a\<in>set (answers_of body). type a = 16 \<longrightarrow> \<not> prefix ''v=spf1'' (strip_quotes (data a)))
         \<longrightarrow> fetchSPFRecords net d = Inr [])
   \<and> (\<forall>rs. fetchSPFRecords net d = Inr rs \<longrightarrow> (\<forall>r\<in>set rs. prefix ''v=spf1'' r))"
proof (intro conjI allI impI ballI)
  show "isl (fetchSPFRecords net d) \<longleftrightarrow>
      (case net d of Rejected msg \<Rightarrow> True | Response k st body \<Rightarrow> \<not> k \<or> Status body \<noteq> 0)"
    by (rule fetchSPFRecords_fails_iff)
next
  fix st body
  assume "net d = Response True st body \<and> Status body = 0"
  then show "fetchSPFRecords net d =
           Inr [strip_quotes (data a). a \<leftarrow> answers_of body, type a = 16,
                prefix ''v=spf1'' (strip_quotes (data a))]"
    by (simp add: fetchSPFRecords_ok)
next
  fix st body
  assume a: "net d = Response True st body \<and> Status body = 0
         \<and> (\<forall>a\<in>set (answers_of body). type a = 16 \<longrightarrow> \<not> prefix ''v=spf1'' (strip_quotes (data a)))"
  then have "fetchSPFRecords net d =
           Inr [strip_quotes (data a). a \<leftarrow> answers_of body, type a = 16,
                prefix ''v=spf1'' (strip_quotes (data a))]"
    by (simp add: fetchSPFRecords_ok)
  moreover from a have "[strip_quotes (data a). a \<leftarrow> answers_of body, type a = 16,
                prefix ''v=spf1'' (strip_quotes (data a))] = []"
    by (induction "answers_of body") auto
  ultimately show "fetchSPFRecords net d = Inr []" by simp
next
  fix rs r
  assume "fetchSPFRecords net d = Inr rs" "r \<in> set rs"
  then show "prefix ''v=spf1'' r" by (rule fetchSPFRecords_all_spf)
qed

theorem fetchSPFRecords_results_witness:
  "example_net ''plain.org'' = Response True ''OK'' plain_body
   \<and> Status plain_body = 0
   \<and> map type (answers_of plain_body) = [16, 5]
   \<and> fetchSPFRecords example_net ''plain.org'' = Inr []
   \<and> fetchSPFRecords example_net ''empty.org'' = Inr []
   \<and> fetchSPFRecords example_net ''x.org'' = Inr [''v=spf1 mx -all'', ''v=spf1 -all'']
   \<and> prefix ''v=spf1'' ''v=spf1 mx -all'' \<and> prefix ''v=spf1'' ''v=spf1 -all''
   \<and> example_net ''nx.org'' = Response True ''OK'' \<lparr>Status = 3, Answer = None\<rparr>
   \<and> isl (fetchSPFRecords example_net ''nx.org'')"
proof -
  have h1: "example_net ''plain.org'' = Response True ''OK'' plain_body"
    by (simp add: example_net_def)
  have h2: "Status plain_body = 0"
    by (simp add: plain_body_def)
  have h3: "\<forall>a\<in>set (answers_of plain_body).
         type a = 16 \<longrightarrow> \<not> prefix ''v=spf1'' (strip_quotes (data a))"
    by code_simp
  have h4: "map type (answers_of plain_body) = [16, 5]"
    by (simp add: answers_of_def plain_body_def)
  have h5: "example_net ''nx.org'' = Response True ''OK'' \<lparr>Status = 3, Answer = None\<rparr>"
    by (simp add: example_net_def)
  from fetchSPFRecords_results[of example_net "''plain.org''"] h1 h2 h3
  have r1: "fetchSPFRecords example_net ''plain.org'' = Inr []"
    by blast
  from fetchSPFRecords_results[of example_net "''x.org''"] ex_x
  have r2: "\<forall>r\<in>set [''v=spf1 mx -all'', ''v=spf1 -all'']. prefix ''v=spf1'' r"
    by blast
  then have r3: "prefix ''v=spf1'' ''v=spf1 mx -all'' \<and> prefix ''v=spf1'' ''v=spf1 -all''"
    by simp
  from fetchSPFRecords_results[of example_net "''nx.org''"] h5
  have r4: "isl (fetchSPFRecords example_net ''nx.org'')"
    by simp
  from h1 h2 h4 h5 r1 r3 r4 ex_x ex_empty show ?thesis by blast
qed

text \<open>
  C9. \<open>fetchIncludedDomain\<close> always returns a string: the first SPF record when
  there is one, \<open>No SPF record found\<close> when the resolver returns none, and
  \<open>Error:\<close> followed by the message when the resolver fails.
\<close>

theorem fetchIncludedDomain_total:
  "(\<exists>s. fetchIncludedDomain net d = Inr s)
   \<and> (\<forall>r rs. fetchSPFRecords net d = Inr (r # rs) \<longrightarrow> fetchIncludedDomain net d = Inr r)
   \<and> (fetchSPFRecords net d = Inr [] \<longrightarrow> fetchIncludedDomain net d = Inr ''No SPF record found'')
   \<and> (\<forall>e. fetchSPFRecords net d = Inl e \<longrightarrow>
         fetchIncludedDomain net d = Inr (''Error: '' @ message e))"
  by (auto simp: fetchIncludedDomain_def split: sum.splits list.splits)

theorem fetchIncludedDomain_total_witness:
  "fetchSPFRecords example_net ''x.org'' = Inr [''v=spf1 mx -all'', ''v=spf1 -all'']
   \<and> fetchIncludedDomain example_net ''x.org'' = Inr ''v=spf1 mx -all''
   \<and> fetchSPFRecords example_net ''plain.org'' = Inr []
   \<and> fetchIncludedDomain example_net ''plain.org'' = Inr ''No SPF record found''
   \<and> fetchSPFRecords example_net ''gw.org'' = Inl (Error ''DNS lookup failed: Bad Gateway'')
   \<and> fetchIncludedDomain example_net ''gw.org'' = Inr ''Error: DNS lookup failed: Bad Gateway''"
  using fetchIncludedDomain_total[of example_net "''x.org''"]
    fetchIncludedDomain_total[of example_net "''plain.org''"]
    fetchIncludedDomain_total[of example_net "''gw.org''"]
  by (simp add: ex_x ex_plain ex_gw)

section \<open>\<open>extractIncludes\<close>\<close>

lemma extractIncludes_example:
  "extractIncludes ''v=spf1 include:a.com redirect=b.com -all'' =
     [\<lparr>etype = ''include'', domain = ''a.com''\<rparr>, \<lparr>etype = ''redirect'', domain = ''b.com''\<rparr>]"
  by code_simp

lemma hit_occurs:
  assumes "m \<in> set (exec_all (lit_run p) 0 None r)"
  shows "occurs_at r (index m) (p @ groups m ! 0)"
proof -
  from exec_all_lit_run[OF assms] obtain run where "matched m = p @ run" "groups m = [run]"
    by blast
  with exec_all_occurs[OF assms] show ?thesis by simp
qed

lemma edges_of_targets:
  assumes p: "\<forall>c\<in>set p. \<not> is_space c" and ne: "p \<noteq> []"
  shows "map (\<lambda>m. \<lparr>etype = k, domain = groups m ! 0\<rparr>) (exec_all (lit_run p) 0 None r)
         = map (\<lambda>d. \<lparr>etype = k, domain = d\<rparr>) (targets p r)"
  unfolding exec_all_targets[OF p ne, of 0 None r, symmetric] by (simp add: comp_def)

lemma token_edge:
  assumes p: "\<forall>c\<in>set p. \<not> is_space c" and ne: "p \<noteq> []"
    and r: "r = pre @ p @ dm @ post" and pre: "pre = [] \<or> is_space (last pre)"
    and dm: "dm \<noteq> []" "\<forall>c\<in>set dm. \<not> is_space c"
    and post: "post = [] \<or> is_space (hd post)"
  shows "\<lparr>etype = k, domain = dm\<rparr>
           \<in> set (map (\<lambda>m. \<lparr>etype = k, domain = groups m ! 0\<rparr>) (exec_all (lit_run p) 0 None r))"
proof -
  from token_found[OF p ne dm post r pre, of 0 None] obtain m where
    "m \<in> set (exec_all (lit_run p) 0 None r)" "groups m = [dm]" by blast
  then show ?thesis by force
qed

lemma targets_positions:
  assumes p: "\<forall>c\<in>set p. \<not> is_space c" and ne: "p \<noteq> []"
  shows "\<exists>pos. length pos = length (targets p r) \<and> sorted_wrt (<) pos
           \<and> (\<forall>k<length pos. occurs_at r (pos ! k) (p @ targets p r ! k))"
proof -
  let ?ms = "exec_all (lit_run p) 0 None r"
  have t: "targets p r = map (\<lambda>m. groups m ! 0) ?ms"
    by (rule exec_all_targets[OF p ne, symmetric])
  have "length (map index ?ms) = length (targets p r)" by (simp add: t)
  moreover have "sorted_wrt (<) (map index ?ms)" by (rule exec_all_sorted)
  moreover have "occurs_at r (map index ?ms ! k) (p @ targets p r ! k)"
    if "k < length (map index ?ms)" for k
  proof -
    from that have "?ms ! k \<in> set ?ms" by simp
    from hit_occurs[OF this] that show ?thesis by (simp add: t)
  qed
  ultimately show ?thesis by blast
qed

lemma lit_ne: "''include:'' \<noteq> []" "''redirect='' \<noteq> []"
  by simp_all

lemma four_inc:
  "targets ''include:'' ''redirect=b.com include:a.com redirect=c.com include:d.com'' = [''a.com'', ''d.com'']"
  by code_simp
lemma four_red:
  "targets ''redirect='' ''redirect=b.com include:a.com redirect=c.com include:d.com'' = [''b.com'', ''c.com'']"
  by code_simp

text \<open>
  C6. \<open>extractIncludes\<close> returns exactly one include edge for every word of the
  record that carries an \<open>include:\<close> target, in the order of the words, followed by
  one redirect edge for every word that carries a \<open>redirect=\<close> target, in the order
  of the words. In particular every token \<open>include:\<close> or \<open>redirect=\<close> followed by
  a domain, delimited by white space or the ends of the record, yields its edge. The
  edges of each kind stand at strictly increasing indices of the record, where the
  prefix is followed by the domain. On \<open>v=spf1 include:a.com redirect=b.com -all\<close>
  the result is the include edge to \<open>a.com\<close> followed by the redirect edge to
  \<open>b.com\<close>.
\<close>

theorem extractIncludes_order:
  "extractIncludes r =
       map (\<lambda>d. \<lparr>etype = ''include'', domain = d\<rparr>) (targets ''include:'' r)
     @ map (\<lambda>d. \<lparr>etype = ''redirect'', domain = d\<rparr>) (targets ''redirect='' r)
   \<and> extractIncludes r = filter is_include (extractIncludes r) @ filter is_redirect (extractIncludes r)
   \<and> (\<forall>pre dm post.
         r = pre @ ''include:'' @ dm @ post \<and> (pre = [] \<or> is_space (last pre))
         \<and> dm \<noteq> [] \<and> (\<forall>c\<in>set dm. \<not> is_space c) \<and> (post = [] \<or> is_space (hd post))
         \<longrightarrow> \<lparr>etype = ''include'', domain = dm\<rparr> \<in> set (extractIncludes r))
   \<and> (\<forall>pre dm post.
         r = pre @ ''redirect='' @ dm @ post \<and> (pre = [] \<or> is_space (last pre))
         \<and> dm \<noteq> [] \<and> (\<forall>c\<in>set dm. \<not> is_space c) \<and> (post = [] \<or> is_space (hd post))
         \<longrightarrow> \<lparr>etype = ''redirect'', domain = dm\<rparr> \<in> set (extractIncludes r))
   \<and> (\<exists>pos. length pos = length (targets ''include:'' r) \<and> sorted_wrt (<) pos
         \<and> (\<forall>k<length pos. occurs_at r (pos ! k) (''include:'' @ targets ''include:'' r ! k)))
   \<and> (\<exists>pos. length pos = length (targets ''redirect='' r) \<and> sorted_wrt (<) pos
         \<and> (\<forall>k<length pos. occurs_at r (pos ! k) (''redirect='' @ targets ''redirect='' r ! k)))
   \<and> extractIncludes ''v=spf1 include:a.com redirect=b.com -all'' =
       [\<lparr>etype = ''include'', domain = ''a.com''\<rparr>, \<lparr>etype = ''redirect'', domain = ''b.com''\<rparr>]"
proof -
  have 1: "extractIncludes r =
       map (\<lambda>d. \<lparr>etype = ''include'', domain = d\<rparr>) (targets ''include:'' r)
     @ map (\<lambda>d. \<lparr>etype = ''redirect'', domain = d\<rparr>) (targets ''redirect='' r)"
    unfolding extractIncludes_def
    by (simp only: edges_of_targets[OF lit_chars(1) lit_ne(1)] edges_of_targets[OF lit_chars(2) lit_ne(2)])
  have 2: "extractIncludes r = filter is_include (extractIncludes r) @ filter is_redirect (extractIncludes r)"
    by (simp add: extractIncludes_def is_include_def is_redirect_def filter_map comp_def)
  have 3: "\<lparr>etype = ''include'', domain = dm\<rparr> \<in> set (extractIncludes r)"
    if "r = pre @ ''include:'' @ dm @ post \<and> (pre = [] \<or> is_space (last pre))
         \<and> dm \<noteq> [] \<and> (\<forall>c\<in>set dm. \<not> is_space c) \<and> (post = [] \<or> is_space (hd post))"
    for pre dm post
  proof -
    from that token_edge[OF lit_chars(1) lit_ne(1), of r pre dm post "''include''"]
    have "\<lparr>etype = ''include'', domain = dm\<rparr>
           \<in> set (map (\<lambda>m. \<lparr>etype = ''include'', domain = groups m ! 0\<rparr>)
                (exec_all (lit_run ''include:'') 0 None r))" by blast
    then show ?thesis unfolding extractIncludes_def by (simp only: set_append Un_iff) blast
  qed
  have 4: "\<lparr>etype = ''redirect'', domain = dm\<rparr> \<in> set (extractIncludes r)"
    if "r = pre @ ''redirect='' @ dm @ post \<and> (pre = [] \<or> is_space (last pre))
         \<and> dm \<noteq> [] \<and> (\<forall>c\<in>set dm. \<not> is_space c) \<and> (post = [] \<or> is_space (hd post))"
    for pre dm post
  proof -
    from that token_edge[OF lit_chars(2) lit_ne(2), of r pre dm post "''redirect''"]
    have "\<lparr>etype = ''redirect'', domain = dm\<rparr>
           \<in> set (map (\<lambda>m. \<lparr>etype = ''redirect'', domain = groups m ! 0\<rparr>)
                (exec_all (lit_run ''redirect='') 0 None r))" by blast
    then show ?thesis unfolding extractIncludes_def by (simp only: set_append Un_iff) blast
  qed
  note 5 = targets_positions[OF lit_chars(1) lit_ne(1), of r]
  note 6 = targets_positions[OF lit_chars(2) lit_ne(2), of r]
  from 1 2 3 4 5 6 extractIncludes_example show ?thesis by blast
qed

theorem extractIncludes_order_witness:
  "targets ''include:'' ''redirect=b.com include:a.com redirect=c.com include:d.com'' = [''a.com'', ''d.com'']
   \<and> targets ''redirect='' ''redirect=b.com include:a.com redirect=c.com include:d.com'' = [''b.com'', ''c.com'']
   \<and> extractIncludes ''redirect=b.com include:a.com redirect=c.com include:d.com'' =
        [\<lparr>etype = ''include'', domain = ''a.com''\<rparr>, \<lparr>etype = ''include'', domain = ''d.com''\<rparr>,
         \<lparr>etype = ''redirect'', domain = ''b.com''\<rparr>, \<lparr>etype = ''redirect'', domain = ''c.com''\<rparr>]
   \<and> ''redirect=b.com include:a.com redirect=c.com include:d.com'' =
        ''redirect=b.com include:a.com '' @ ''redirect='' @ ''c.com'' @ '' include:d.com''
   \<and> is_space (last ''redirect=b.com include:a.com '')
   \<and> is_space (hd '' include:d.com'')
   \<and> \<lparr>etype = ''redirect'', domain = ''c.com''\<rparr>
        \<in> set (extractIncludes ''redirect=b.com include:a.com redirect=c.com include:d.com'')"
proof -
  note t = extractIncludes_order[of "''redirect=b.com include:a.com redirect=c.com include:d.com''"]
  from t have e: "extractIncludes ''redirect=b.com include:a.com redirect=c.com include:d.com'' =
        [\<lparr>etype = ''include'', domain = ''a.com''\<rparr>, \<lparr>etype = ''include'', domain = ''d.com''\<rparr>,
         \<lparr>etype = ''redirect'', domain = ''b.com''\<rparr>, \<lparr>etype = ''redirect'', domain = ''c.com''\<rparr>]"
    unfolding four_inc four_red by simp
  have h1: "''redirect=b.com include:a.com redirect=c.com include:d.com'' =
        ''redirect=b.com include:a.com '' @ ''redirect='' @ ''c.com'' @ '' include:d.com''"
    by simp
  have h2: "is_space (last ''redirect=b.com include:a.com '')" by code_simp
  have h3: "is_space (hd '' include:d.com'')" by code_simp
  have h4: "''c.com'' \<noteq> []" by simp
  have h5: "\<forall>c\<in>set ''c.com''. \<not> is_space c" by code_simp
  from t have "\<forall>pre dm post.
         ''redirect=b.com include:a.com redirect=c.com include:d.com'' = pre @ ''redirect='' @ dm @ post
         \<and> (pre = [] \<or> is_space (last pre))
         \<and> dm \<noteq> [] \<and> (\<forall>c\<in>set dm. \<not> is_space c) \<and> (post = [] \<or> is_space (hd post))
         \<longrightarrow> \<lparr>etype = ''redirect'', domain = dm\<rparr>
              \<in> set (extractIncludes ''redirect=b.com include:a.com redirect=c.com include:d.com'')"
    by blast
  from this[rule_format, of "''redirect=b.com include:a.com ''" "''c.com''" "'' include:d.com''"]
    h1 h2 h3 h4 h5
  have m: "\<lparr>etype = ''redirect'', domain = ''c.com''\<rparr>
        \<in> set (extractIncludes ''redirect=b.com include:a.com redirect=c.com include:d.com'')"
    by blast
  from four_inc four_red e h1 h2 h3 m show ?thesis by blast
qed

text \<open>
  C10. The include edges of \<open>extractIncludes\<close> are as many as the include matches
  that \<open>countDNSLookups\<close> counts on the same record, and their domains are, in
  order, the domains its loop runs over.
\<close>

theorem include_edges_agree:
  "length (filter is_include (extractIncludes r)) = length (includeMatches r)
   \<and> map domain (filter is_include (extractIncludes r)) = includeDomains r"
proof -
  have i: "filter is_include (extractIncludes r) =
      map (\<lambda>m. \<lparr>etype = ''include'', domain = groups m ! 0\<rparr>) (exec_all (lit_run ''include:'') 0 None r)"
    by (simp add: extractIncludes_def is_include_def filter_map comp_def)
  have "replace_first ''include:'' [] (matched m) = groups m ! 0"
    if "m \<in> set (exec_all (lit_run ''include:'') 0 None r)" for m
  proof -
    from exec_all_lit_run[OF that] obtain run where
      "matched m = ''include:'' @ run" "groups m = [run]" by blast
    then show ?thesis using replace_first_prefix[of "''include:''" "[]" run] by simp
  qed
  then have "map domain (filter is_include (extractIncludes r)) = includeDomains r"
    unfolding i by (simp add: includeDomains_def includeMatches_def match_g_def comp_def)
  moreover have "length (filter is_include (extractIncludes r)) = length (includeMatches r)"
    unfolding i by (simp add: includeMatches_def match_g_def)
  ultimately show ?thesis by simp
qed

section \<open>\<open>countDNSLookups\<close>\<close>

subsection \<open>What a traversal does to its state\<close>

lemma extends_refl: "extends t t"
  unfolding extends_def by (rule exI[of _ "[]"]) simp

lemma extends_visit: "d \<notin> visited t \<Longrightarrow> extends t (visit d t)"
  unfolding extends_def by (rule exI[of _ "[d]"]) (simp add: visit_def)

lemma extends_trans:
  assumes "extends t t'" "extends t' t''"
  shows "extends t t''"
proof -
  from assms(1) obtain n1 where 1: "t' = \<lparr>visited = visited t \<union> set n1, requests = requests t @ n1\<rparr>"
    "distinct n1" "set n1 \<inter> visited t = {}" unfolding extends_def by blast
  from assms(2) obtain n2 where 2: "t'' = \<lparr>visited = visited t' \<union> set n2, requests = requests t' @ n2\<rparr>"
    "distinct n2" "set n2 \<inter> visited t' = {}" unfolding extends_def by blast
  have "t'' = \<lparr>visited = visited t \<union> set (n1 @ n2), requests = requests t @ (n1 @ n2)\<rparr>"
    using 1(1) 2(1) by (simp add: Un_assoc)
  moreover have "distinct (n1 @ n2)" using 1 2 by auto
  moreover have "set (n1 @ n2) \<inter> visited t = {}" using 1 2 by auto
  ultimately show ?thesis unfolding extends_def by blast
qed

lemma extends_visited_mono: "extends t t' \<Longrightarrow> visited t \<subseteq> visited t'"
  unfolding extends_def by auto

lemma traversal_extends:
  "extends t (snd (countDNSLookups net r t depth))"
  "extends t (snd (count_loop net ds c t depth))"
proof (induction net r t depth and net ds c t depth rule: countDNSLookups_count_loop.induct)
  case (1 net spfRecord t depth)
  then show ?case by (simp add: extends_refl)
next
  case (2 net count t depth)
  show ?case by (simp add: extends_refl)
next
  case (3 net domain rest count t depth)
  show ?case
  proof (cases "domain \<in> visited t")
    case True
    with 3 show ?thesis by simp
  next
    case nv: False
    show ?thesis
    proof (cases "fetchSPFRecords net domain")
      case (Inl e)
      from "3.IH"(2)[OF nv Inl] extends_visit[OF nv] nv Inl show ?thesis
        by (auto intro: extends_trans)
    next
      case (Inr rs)
      show ?thesis
      proof (cases rs)
        case Nil
        from "3.IH"(3)[OF nv Inr Nil] extends_visit[OF nv] nv Inr Nil show ?thesis
          by (auto intro: extends_trans)
      next
        case (Cons r rs')
        obtain n t' where res: "countDNSLookups net r (visit domain t) (depth + 1) = (n, t')"
          by (cases "countDNSLookups net r (visit domain t) (depth + 1)")
        from "3.IH"(4)[OF nv Inr Cons] res have e1: "extends (visit domain t) t'" by simp
        from "3.IH"(5)[OF nv Inr Cons res[symmetric]]
        have e2: "extends t' (snd (count_loop net rest (count + n) t' depth))" .
        from extends_visit[OF nv] e1 e2 have "extends t (snd (count_loop net rest (count + n) t' depth))"
          by (blast intro: extends_trans)
        with nv Inr Cons res show ?thesis by simp
      qed
    qed
  qed
qed

lemma count_loop_visits_all: "set ds \<subseteq> visited (snd (count_loop net ds c t depth))"
proof (induction ds arbitrary: c t)
  case Nil
  show ?case by simp
next
  case (Cons d ds)
  have step: "d \<in> visited (snd (count_loop net (d # ds) c t depth))"
  proof (cases "d \<in> visited t")
    case True
    with extends_visited_mono[OF traversal_extends(2)[of t net "d # ds" c depth]]
    show ?thesis by blast
  next
    case nv: False
    have v: "d \<in> visited (visit d t)" by (simp add: visit_def)
    show ?thesis
    proof (cases "fetchSPFRecords net d")
      case (Inl e)
      from v extends_visited_mono[OF traversal_extends(2)[of "visit d t" net ds c depth]]
      show ?thesis using nv Inl by auto
    next
      case (Inr rs)
      show ?thesis
      proof (cases rs)
        case Nil
        from v extends_visited_mono[OF traversal_extends(2)[of "visit d t" net ds c depth]]
        show ?thesis using nv Inr Nil by auto
      next
        case (Cons r rs')
        obtain n t' where res: "countDNSLookups net r (visit d t) (depth + 1) = (n, t')"
          by (cases "countDNSLookups net r (visit d t) (depth + 1)")
        from traversal_extends(1)[of "visit d t" net r "depth + 1"] res
        have "extends (visit d t) t'" by simp
        with v have "d \<in> visited t'" using extends_visited_mono by blast
        with extends_visited_mono[OF traversal_extends(2)[of t' net ds "c + n" depth]]
        show ?thesis using nv Inr Cons res by auto
      qed
    qed
  qed
  have rest: "set ds \<subseteq> visited (snd (count_loop net (d # ds) c t depth))"
    using Cons.IH by (auto split: sum.splits list.splits prod.splits)
  from step rest show ?case by simp
qed

lemma distinct_count_one: "distinct xs \<Longrightarrow> x \<in> set xs \<Longrightarrow> count_list xs x = 1"
  by (induction xs) auto

subsection \<open>Records without includes, and loops over such records\<close>

lemma countDNSLookups_leaf:
  "depth \<le> 10 \<Longrightarrow> includeMatches r = [] \<Longrightarrow> countDNSLookups net r t depth = (direct_count r, t)"
  by (simp add: includeDomains_def)

lemma count_loop_flat:
  assumes "depth < 10"
    and "\<forall>d\<in>set ds. \<forall>r rs. fetchSPFRecords net d = Inr (r # rs) \<longrightarrow> includeMatches r = []"
  shows "fst (count_loop net ds c t depth) = c + (\<Sum>d\<in>set ds - visited t. nested_direct net d)"
  using assms(2)
proof (induction ds arbitrary: c t)
  case Nil
  show ?case by simp
next
  case (Cons d ds)
  then have IH: "fst (count_loop net ds c' t' depth) = c' + (\<Sum>d\<in>set ds - visited t'. nested_direct net d)"
    for c' t' by simp
  show ?case
  proof (cases "d \<in> visited t")
    case True
    then have "set (d # ds) - visited t = set ds - visited t" by auto
    with True IH show ?thesis by simp
  next
    case nv: False
    have split: "set (d # ds) - visited t = insert d (set ds - visited (visit d t))"
      using nv by (auto simp: visit_def)
    have notin: "d \<notin> set ds - visited (visit d t)" by (simp add: visit_def)
    have sum: "(\<Sum>x\<in>set (d # ds) - visited t. nested_direct net x) =
                 nested_direct net d + (\<Sum>x\<in>set ds - visited (visit d t). nested_direct net x)"
      unfolding split using notin by (subst sum.insert) auto
    show ?thesis
    proof (cases "fetchSPFRecords net d")
      case (Inl e)
      then have "nested_direct net d = 0" by (simp add: nested_direct_def)
      with nv Inl IH sum show ?thesis by simp
    next
      case (Inr rs)
      show ?thesis
      proof (cases rs)
        case Nil
        with Inr have "nested_direct net d = 0" by (simp add: nested_direct_def)
        with nv Inr Nil IH sum show ?thesis by simp
      next
        case (Cons r rs')
        with Inr Cons.prems have "includeMatches r = []" by simp
        with assms(1) have "countDNSLookups net r (visit d t) (depth + 1) = (direct_count r, visit d t)"
          by (intro countDNSLookups_leaf) auto
        moreover from Inr Cons have "nested_direct net d = direct_count r"
          by (simp add: nested_direct_def)
        ultimately show ?thesis using nv Inr Cons IH sum by simp
      qed
    qed
  qed
qed

subsection \<open>The accumulator, and which names are requested\<close>



subsection \<open>Failing sub-resolutions\<close>

lemma fetch_failures_as_empty:
  "fetchSPFRecords (failures_as_empty net) d =
     (case fetchSPFRecords net d of Inl e \<Rightarrow> Inr [] | Inr rs \<Rightarrow> Inr rs)"
proof (cases "fetchSPFRecords net d")
  case (Inl e)
  then show ?thesis by (simp add: failures_as_empty_def fetchSPFRecords_def)
next
  case (Inr rs)
  then have "failures_as_empty net d = net d" by (simp add: failures_as_empty_def)
  then have "fetchSPFRecords (failures_as_empty net) d = fetchSPFRecords net d"
    by (simp add: fetchSPFRecords_def)
  with Inr show ?thesis by simp
qed

lemma failures_swallowed:
  "countDNSLookups (failures_as_empty net) r t depth = countDNSLookups net r t depth"
  "count_loop (failures_as_empty net) ds c t depth = count_loop net ds c t depth"
proof (induction net r t depth and net ds c t depth rule: countDNSLookups_count_loop.induct)
  case (1 net spfRecord t depth)
  then show ?case by simp
next
  case (2 net count t depth)
  show ?case by simp
next
  case (3 net domain rest count t depth)
  show ?case
  proof (cases "domain \<in> visited t")
    case True
    with "3.IH"(1) show ?thesis by simp
  next
    case nv: False
    show ?thesis
    proof (cases "fetchSPFRecords net domain")
      case (Inl e)
      with "3.IH"(2)[OF nv Inl] nv show ?thesis by (simp add: fetch_failures_as_empty)
    next
      case (Inr rs)
      show ?thesis
      proof (cases rs)
        case Nil
        with "3.IH"(3)[OF nv Inr Nil] nv Inr show ?thesis by (simp add: fetch_failures_as_empty)
      next
        case (Cons r rs')
        obtain n t' where res: "countDNSLookups net r (visit domain t) (depth + 1) = (n, t')"
          by (cases "countDNSLookups net r (visit domain t) (depth + 1)")
        from "3.IH"(4)[OF nv Inr Cons] "3.IH"(5)[OF nv Inr Cons res[symmetric]] res nv Inr Cons
        show ?thesis by (simp add: fetch_failures_as_empty)
      qed
    qed
  qed
qed

subsection \<open>A chain of single-include records\<close>

lemma chain_from:
  fixes D R :: "nat \<Rightarrow> string"
  assumes inc: "\<forall>i\<in>{0..<15}. includeDomains (R i) = [D (Suc i)]"
    and res: "\<forall>i\<in>{1..<15}. \<exists>rs. fetchSPFRecords net (D i) = Inr (R i # rs)"
    and dist: "distinct (map D [1..<16])"
  shows "k \<le> 10 \<Longrightarrow> visited t \<inter> D ` {Suc k..11} = {} \<Longrightarrow>
         countDNSLookups net (R k) t (int k) =
           (\<Sum>i = k..10. direct_count (R i),
            \<lparr>visited = visited t \<union> D ` {Suc k..11}, requests = requests t @ map D [Suc k..<12]\<rparr>)"
proof (induction "10 - k" arbitrary: k t)
  case 0
  then have k: "k = 10" by simp
  from inc have i: "includeDomains (R 10) = [D 11]" by simp
  from res obtain rs where f: "fetchSPFRecords net (D 11) = Inr (R 11 # rs)" by force
  from "0.prems"(2) k have nv: "D 11 \<notin> visited t" by auto
  have "countDNSLookups net (R 10) t 10 = (direct_count (R 10), visit (D 11) t)"
    using i f nv by simp
  then show ?case unfolding k by (simp add: visit_def)
next
  case (Suc n)
  then have k: "k < 10" by simp
  from inc k have i: "includeDomains (R k) = [D (Suc k)]" by simp
  from res k obtain rs where f: "fetchSPFRecords net (D (Suc k)) = Inr (R (Suc k) # rs)" by force
  from Suc.prems(2) k have nv: "D (Suc k) \<notin> visited t" by auto
  from dist have inj: "inj_on D {1..<16}" by (simp add: distinct_map)
  have "D (Suc k) \<notin> D ` {Suc (Suc k)..11}"
  proof
    assume "D (Suc k) \<in> D ` {Suc (Suc k)..11}"
    then obtain j where j: "j \<in> {Suc (Suc k)..11}" "D (Suc k) = D j" by blast
    with k inj have "Suc k = j" by (auto dest!: inj_onD[where x = "Suc k" and y = j])
    with j show False by simp
  qed
  moreover have "visited t \<inter> D ` {Suc (Suc k)..11} = {}" using Suc.prems(2) by auto
  ultimately have disj: "visited (visit (D (Suc k)) t) \<inter> D ` {Suc (Suc k)..11} = {}"
    by (auto simp: visit_def)
  from Suc.hyps(2) have n: "n = 10 - Suc k" by simp
  from k have k1: "Suc k \<le> 10" by simp
  note IH = Suc.hyps(1)[OF n k1 disj]
  have d: "int k + 1 = int (Suc k)" by simp
  have set_eq: "{Suc k..11} = insert (Suc k) {Suc (Suc k)..11}" using k by auto
  have upt_eq: "[Suc k..<12] = Suc k # [Suc (Suc k)..<12]" using k by (simp add: upt_conv_Cons)
  have sum_eq: "(\<Sum>i = k..10. direct_count (R i)) = direct_count (R k) + (\<Sum>i = Suc k..10. direct_count (R i))"
    using k by (simp add: sum.atLeast_Suc_atMost)
  have "countDNSLookups net (R k) t (int k) =
          (direct_count (R k) + (\<Sum>i = Suc k..10. direct_count (R i)),
           \<lparr>visited = visited (visit (D (Suc k)) t) \<union> D ` {Suc (Suc k)..11},
            requests = requests (visit (D (Suc k)) t) @ map D [Suc (Suc k)..<12]\<rparr>)"
    using k i f nv IH by (simp add: d del: of_nat_Suc)
  then show ?case unfolding set_eq upt_eq sum_eq by (simp add: visit_def)
qed

subsection \<open>Runs on the small network\<close>

lemma ex_g: "fetchSPFRecords example_net ''_spf.google.com'' = Inr [''v=spf1 ip4:2.2.2.2 -all'']"
  by code_simp

lemma ex_a: "fetchSPFRecords example_net ''a.com'' = Inr [''v=spf1 include:b.com -all'']"
  by code_simp
lemma ex_b: "fetchSPFRecords example_net ''b.com'' = Inr [''v=spf1 include:a.com -all'']"
  by code_simp
lemma inc_a: "includeDomains ''v=spf1 include:b.com -all'' = [''b.com'']"
  by code_simp
lemma inc_b: "includeDomains ''v=spf1 include:a.com -all'' = [''a.com'']"
  by code_simp
lemma cycle_run:
  "countDNSLookups example_net ''v=spf1 include:b.com -all'' fresh 0 =
     (4, \<lparr>visited = {''a.com'', ''b.com''}, requests = [''b.com'', ''a.com'']\<rparr>)"
  by code_simp

lemma two_inc: "includeDomains ''v=spf1 mx include:x.org include:_spf.google.com include:x.org -all'' =
    [''x.org'', ''_spf.google.com'', ''x.org'']"
  by code_simp
lemma leaf_x: "includeMatches ''v=spf1 mx -all'' = []"
  by code_simp
lemma leaf_g: "includeMatches ''v=spf1 ip4:2.2.2.2 -all'' = []"
  by code_simp
lemma two_matches: "length (includeMatches ''v=spf1 mx include:x.org include:_spf.google.com include:x.org -all'') = 3"
  by code_simp
lemma nested_x: "nested_direct example_net ''x.org'' = 1"
  by code_simp
lemma nested_g: "nested_direct example_net ''_spf.google.com'' = 0"
  by code_simp

lemma cex_inc: "includeDomains ''v=spf1 include:x.org -all'' = [''x.org'']"
  by code_simp
lemma cex_run: "fst (countDNSLookups example_net ''v=spf1 include:x.org -all'' fresh 0) = 2"
  by code_simp
lemma cex_parts:
  "length (includeMatches ''v=spf1 include:x.org -all'') = 1
   \<and> length (match_g (lit ''redirect='') ''v=spf1 include:x.org -all'') = 0
   \<and> length (match_g (bword ''a'') ''v=spf1 include:x.org -all'') = 0
   \<and> length (match_g (bword ''mx'') ''v=spf1 include:x.org -all'') = 0
   \<and> length (match_g (bword ''ptr'') ''v=spf1 include:x.org -all'') = 0
   \<and> length (match_g (lit ''exists:'') ''v=spf1 include:x.org -all'') = 0"
  by code_simp



lemma down_inc: "includeDomains ''v=spf1 include:down.org include:x.org -all'' = [''down.org'', ''x.org'']"
  by code_simp
lemma down_direct: "direct_count ''v=spf1 include:down.org include:x.org -all'' = 2"
  by code_simp
lemma down_run:
  "countDNSLookups example_net ''v=spf1 include:down.org include:x.org -all'' fresh 0 =
     (3, \<lparr>visited = {''down.org'', ''x.org''}, requests = [''down.org'', ''x.org'']\<rparr>)"
  by code_simp
lemma down_rest:
  "count_loop example_net [''x.org''] 2 (visit ''down.org'' fresh) 0 =
     (3, \<lparr>visited = {''down.org'', ''x.org''}, requests = [''down.org'', ''x.org'']\<rparr>)"
  by code_simp

lemma chain_inc_all:
  "list_all (\<lambda>i. includeDomains (chain_record i) = [chain_domain (Suc i)]) [0..<15]"
  by code_simp
lemma chain_res_all:
  "list_all (\<lambda>i. fetchSPFRecords chain_net (chain_domain i) = Inr [chain_record i]) [1..<15]"
  by code_simp
lemma chain_inc: "\<forall>i\<in>{0..<15}. includeDomains (chain_record i) = [chain_domain (Suc i)]"
  using chain_inc_all by (simp only: list_all_iff set_upt)
lemma chain_res: "\<forall>i\<in>{1..<15}. fetchSPFRecords chain_net (chain_domain i) = Inr [chain_record i]"
  using chain_res_all by (simp only: list_all_iff set_upt)
lemma chain_dist: "distinct (map chain_domain [1..<16])"
  by code_simp
lemma chain_sum: "(\<Sum>i = 0..10. direct_count (chain_record i)) = 11"
  by code_simp
lemma chain_requests: "map chain_domain [1..<12] =
  [''n.org'', ''nn.org'', ''nnn.org'', ''nnnn.org'', ''nnnnn.org'', ''nnnnnn.org'', ''nnnnnnn.org'',
   ''nnnnnnnn.org'', ''nnnnnnnnn.org'', ''nnnnnnnnnn.org'', ''nnnnnnnnnnn.org'']"
  by code_simp
lemma chain_root: "chain_record 0 = ''v=spf1 include:n.org -all''"
  by code_simp

lemma ip6_includes: "includeDomains ''v=spf1 ip6:2001:db8::a -all'' = []"
  by code_simp
lemma ip6_direct: "direct_count ''v=spf1 ip6:2001:db8::a -all'' = 1"
  by code_simp

subsection \<open>The properties\<close>

text \<open>
  C1, as the code has it. When the first SPF record of every included domain has no
  include of its own, the count of a record, from a fresh state at depth 0, is the
  number N of its include matches, plus the number of its \<open>redirect=\<close>, \<open>a\<close>, \<open>mx\<close>,
  \<open>ptr\<close> and \<open>exists:\<close> matches, plus the direct cost of the first SPF record of every
  distinct included domain (0 for a domain without SPF record, or whose resolution
  fails).
\<close>

theorem countDNSLookups_one_level:
  assumes "\<forall>d\<in>set (includeDomains r). \<forall>r' rs. fetchSPFRecords net d = Inr (r' # rs) \<longrightarrow> includeMatches r' = []"
  shows "fst (countDNSLookups net r fresh 0) =
           length (includeMatches r)
           + (length (match_g (lit ''redirect='') r) + length (match_g (bword ''a'') r)
              + length (match_g (bword ''mx'') r) + length (match_g (bword ''ptr'') r)
              + length (match_g (lit ''exists:'') r))
           + (\<Sum>d\<in>set (includeDomains r). nested_direct net d)"
proof -
  have "fst (countDNSLookups net r fresh 0) = fst (count_loop net (includeDomains r) (direct_count r) fresh 0)"
    by simp
  also have "\<dots> = direct_count r + (\<Sum>d\<in>set (includeDomains r) - visited fresh. nested_direct net d)"
    using assms by (intro count_loop_flat) auto
  also have "visited fresh = {}" by (simp add: fresh_def)
  finally show ?thesis by (simp add: direct_count_def)
qed

theorem countDNSLookups_one_level_witness:
  "includeDomains ''v=spf1 mx include:x.org include:_spf.google.com include:x.org -all'' =
      [''x.org'', ''_spf.google.com'', ''x.org'']
   \<and> fetchSPFRecords example_net ''x.org'' = Inr [''v=spf1 mx -all'', ''v=spf1 -all'']
   \<and> fetchSPFRecords example_net ''_spf.google.com'' = Inr [''v=spf1 ip4:2.2.2.2 -all'']
   \<and> includeMatches ''v=spf1 mx -all'' = []
   \<and> includeMatches ''v=spf1 ip4:2.2.2.2 -all'' = []
   \<and> length (includeMatches ''v=spf1 mx include:x.org include:_spf.google.com include:x.org -all'') = 3
   \<and> nested_direct example_net ''x.org'' = 1
   \<and> nested_direct example_net ''_spf.google.com'' = 0
   \<and> fst (countDNSLookups example_net
         ''v=spf1 mx include:x.org include:_spf.google.com include:x.org -all'' fresh 0) = 5"
proof -
  have hyp: "\<forall>d\<in>set (includeDomains ''v=spf1 mx include:x.org include:_spf.google.com include:x.org -all'').
     \<forall>r' rs. fetchSPFRecords example_net d = Inr (r' # rs) \<longrightarrow> includeMatches r' = []"
    unfolding two_inc using ex_x ex_g leaf_x leaf_g by simp
  note t = countDNSLookups_one_level[OF hyp]
  have "fst (countDNSLookups example_net
         ''v=spf1 mx include:x.org include:_spf.google.com include:x.org -all'' fresh 0) = 5"
    unfolding t by code_simp
  with two_inc ex_x ex_g leaf_x leaf_g two_matches nested_x nested_g show ?thesis by blast
qed

text \<open>
  The count is not N plus the matches of the root record alone: the root
  \<open>v=spf1 include:x.org -all\<close> has one include and no other match, the record of
  \<open>x.org\<close> has no include, and the count is 2, since the \<open>mx\<close> of the nested record
  is counted too.
\<close>

theorem nested_cost_counterexample:
  "includeDomains ''v=spf1 include:x.org -all'' = [''x.org'']
   \<and> fetchSPFRecords example_net ''x.org'' = Inr [''v=spf1 mx -all'', ''v=spf1 -all'']
   \<and> includeMatches ''v=spf1 mx -all'' = []
   \<and> length (includeMatches ''v=spf1 include:x.org -all'') = 1
   \<and> length (match_g (lit ''redirect='') ''v=spf1 include:x.org -all'') = 0
   \<and> length (match_g (bword ''a'') ''v=spf1 include:x.org -all'') = 0
   \<and> length (match_g (bword ''mx'') ''v=spf1 include:x.org -all'') = 0
   \<and> length (match_g (bword ''ptr'') ''v=spf1 include:x.org -all'') = 0
   \<and> length (match_g (lit ''exists:'') ''v=spf1 include:x.org -all'') = 0
   \<and> fst (countDNSLookups example_net ''v=spf1 include:x.org -all'' fresh 0) = 2
   \<and> fst (countDNSLookups example_net ''v=spf1 include:x.org -all'' fresh 0) \<noteq>
       length (includeMatches ''v=spf1 include:x.org -all'')
       + (length (match_g (lit ''redirect='') ''v=spf1 include:x.org -all'')
          + length (match_g (bword ''a'') ''v=spf1 include:x.org -all'')
          + length (match_g (bword ''mx'') ''v=spf1 include:x.org -all'')
          + length (match_g (bword ''ptr'') ''v=spf1 include:x.org -all'')
          + length (match_g (lit ''exists:'') ''v=spf1 include:x.org -all''))"
proof -
  have "fst (countDNSLookups example_net ''v=spf1 include:x.org -all'' fresh 0) \<noteq>
       length (includeMatches ''v=spf1 include:x.org -all'')
       + (length (match_g (lit ''redirect='') ''v=spf1 include:x.org -all'')
          + length (match_g (bword ''a'') ''v=spf1 include:x.org -all'')
          + length (match_g (bword ''mx'') ''v=spf1 include:x.org -all'')
          + length (match_g (bword ''ptr'') ''v=spf1 include:x.org -all'')
          + length (match_g (lit ''exists:'') ''v=spf1 include:x.org -all''))"
    using cex_parts cex_run by simp
  with cex_inc ex_x leaf_x cex_parts cex_run show ?thesis by blast
qed

text \<open>
  C2. An \<open>ip6:\<close> token can add to the count: the group \<open>a\<close> of the address
  \<open>2001:db8::a\<close> stands between a colon and a space, so \<open>/\ba\b/\<close> matches it, and
  the record \<open>v=spf1 ip6:2001:db8::a -all\<close>, which needs no DNS lookup, counts 1.
\<close>

theorem ip6_token_counted:
  "countDNSLookups net ''v=spf1 ip6:2001:db8::a -all'' fresh 0 = (1, fresh)"
  by (simp add: ip6_includes ip6_direct)

text \<open>
  C3. When the records of two domains A and B include each other, the traversal
  that starts from the record of A returns, B is in the visited set it leaves, and
  B was requested exactly once.
\<close>

theorem cycle_terminates:
  assumes "fetchSPFRecords net A = Inr (recA # rsA)"
    and "fetchSPFRecords net B = Inr (recB # rsB)"
    and "B \<in> set (includeDomains recA)"
    and "A \<in> set (includeDomains recB)"
  shows "\<exists>n t'. countDNSLookups net recA fresh 0 = (n, t')
           \<and> B \<in> visited t' \<and> count_list (requests t') B = 1"
proof -
  obtain n t' where res: "countDNSLookups net recA fresh 0 = (n, t')"
    by (cases "countDNSLookups net recA fresh 0")
  then have loop: "count_loop net (includeDomains recA) (direct_count recA) fresh 0 = (n, t')"
    by simp
  from count_loop_visits_all[of "includeDomains recA" net "direct_count recA" fresh 0] loop assms(3)
  have v: "B \<in> visited t'" by auto
  from traversal_extends(1)[of fresh net recA 0] res have "extends fresh t'" by simp
  then obtain new where new: "t' = \<lparr>visited = visited fresh \<union> set new, requests = requests fresh @ new\<rparr>"
    "distinct new" unfolding extends_def by blast
  from new(1) have "visited t' = set new" "requests t' = new" by (simp_all add: fresh_def)
  with v new(2) have "count_list (requests t') B = 1" by (simp add: distinct_count_one)
  with res v show ?thesis by blast
qed

theorem cycle_terminates_witness:
  "fetchSPFRecords example_net ''a.com'' = Inr [''v=spf1 include:b.com -all'']
   \<and> fetchSPFRecords example_net ''b.com'' = Inr [''v=spf1 include:a.com -all'']
   \<and> includeDomains ''v=spf1 include:b.com -all'' = [''b.com'']
   \<and> includeDomains ''v=spf1 include:a.com -all'' = [''a.com'']
   \<and> countDNSLookups example_net ''v=spf1 include:b.com -all'' fresh 0 =
       (4, \<lparr>visited = {''a.com'', ''b.com''}, requests = [''b.com'', ''a.com'']\<rparr>)
   \<and> count_list [''b.com'', ''a.com''] ''b.com'' = 1"
proof -
  from cycle_terminates[of example_net "''a.com''" "''v=spf1 include:b.com -all''" "[]"
      "''b.com''" "''v=spf1 include:a.com -all''" "[]"]
  have "\<exists>n t'. countDNSLookups example_net ''v=spf1 include:b.com -all'' fresh 0 = (n, t')
           \<and> ''b.com'' \<in> visited t' \<and> count_list (requests t') ''b.com'' = 1"
    by (simp add: ex_a ex_b inc_a inc_b)
  then have "count_list [''b.com'', ''a.com''] ''b.com'' = 1"
    unfolding cycle_run by simp
  with ex_a ex_b inc_a inc_b cycle_run show ?thesis by blast
qed

text \<open>
  C4. With a depth above 10 the function returns 0 and leaves the state as it was:
  no name is visited or requested. So for a chain of 15 records, each including
  the next domain only, the traversal from the first record returns the sum of the
  direct costs of the records at depths 0 to 10, having requested the first 11
  domains of the chain; the records further down add nothing.
\<close>

theorem depth_bound:
  fixes D R :: "nat \<Rightarrow> string"
  shows "(10 < depth \<longrightarrow> countDNSLookups net r t depth = (0, t))
   \<and> ((\<forall>i\<in>{0..<15}. includeDomains (R i) = [D (Suc i)])
       \<and> (\<forall>i\<in>{1..<15}. \<exists>rs. fetchSPFRecords net (D i) = Inr (R i # rs))
       \<and> distinct (map D [1..<16])
      \<longrightarrow> countDNSLookups net (R 0) fresh 0 =
            (\<Sum>i = 0..10. direct_count (R i),
             \<lparr>visited = D ` {1..11}, requests = map D [1..<12]\<rparr>))"
proof (intro conjI impI)
  assume "10 < depth"
  then show "countDNSLookups net r t depth = (0, t)" by simp
next
  assume a: "(\<forall>i\<in>{0..<15}. includeDomains (R i) = [D (Suc i)])
       \<and> (\<forall>i\<in>{1..<15}. \<exists>rs. fetchSPFRecords net (D i) = Inr (R i # rs))
       \<and> distinct (map D [1..<16])"
  have "visited fresh \<inter> D ` {Suc 0..11} = {}" by (simp add: fresh_def)
  from chain_from[of R D net 0 fresh, OF _ _ _ _ this] a
  show "countDNSLookups net (R 0) fresh 0 =
            (\<Sum>i = 0..10. direct_count (R i),
             \<lparr>visited = D ` {1..11}, requests = map D [1..<12]\<rparr>)"
    by (simp add: fresh_def)
qed

theorem depth_bound_witness:
  "chain_record 0 = ''v=spf1 include:n.org -all''
   \<and> includeDomains (chain_record 14) = [chain_domain 15]
   \<and> fetchSPFRecords chain_net (chain_domain 14) = Inr [chain_record 14]
   \<and> distinct (map chain_domain [1..<16])
   \<and> countDNSLookups chain_net (chain_record 0) fresh 0 =
       (11, \<lparr>visited = chain_domain ` {1..11},
             requests = [''n.org'', ''nn.org'', ''nnn.org'', ''nnnn.org'', ''nnnnn.org'',
               ''nnnnnn.org'', ''nnnnnnn.org'', ''nnnnnnnn.org'', ''nnnnnnnnn.org'',
               ''nnnnnnnnnn.org'', ''nnnnnnnnnnn.org'']\<rparr>)
   \<and> countDNSLookups chain_net (chain_record 11) fresh 11 = (0, fresh)"
proof -
  note t = depth_bound[of 11 chain_net "chain_record 11" fresh chain_record chain_domain]
  from chain_res have res: "\<forall>i\<in>{1..<15}. \<exists>rs. fetchSPFRecords chain_net (chain_domain i) = Inr (chain_record i # rs)"
    by blast
  from t chain_inc res chain_dist
  have 1: "countDNSLookups chain_net (chain_record 0) fresh 0 =
            (\<Sum>i = 0..10. direct_count (chain_record i),
             \<lparr>visited = chain_domain ` {1..11}, requests = map chain_domain [1..<12]\<rparr>)"
    by blast
  from t have 2: "countDNSLookups chain_net (chain_record 11) fresh 11 = (0, fresh)"
    by simp
  from chain_inc have 3: "includeDomains (chain_record 14) = [chain_domain 15]" by simp
  from chain_res have 4: "fetchSPFRecords chain_net (chain_domain 14) = Inr [chain_record 14]" by simp
  from 1 2 3 4 chain_dist chain_root show ?thesis
    unfolding chain_sum chain_requests by simp
qed



text \<open>
  C7. A traversal gives the same count and the same state as on the network in
  which every failing resolution yields no record instead: a failure adds 0. At a
  domain whose resolution fails the loop marks the domain visited and goes on with
  the remaining include domains, and the result is a count, never an error.
\<close>

theorem sub_failure_swallowed:
  "countDNSLookups (failures_as_empty net) r t depth = countDNSLookups net r t depth
   \<and> (\<forall>e. d \<notin> visited t \<and> fetchSPFRecords net d = Inl e \<longrightarrow>
         count_loop net (d # rest) count t depth
           = count_loop net rest count (visit d t) depth)"
  using failures_swallowed(1)[of net r t depth] by simp

theorem sub_failure_swallowed_witness:
  "fetchSPFRecords example_net ''down.org'' = Inl (Error ''Failed to fetch'')
   \<and> includeDomains ''v=spf1 include:down.org include:x.org -all'' = [''down.org'', ''x.org'']
   \<and> direct_count ''v=spf1 include:down.org include:x.org -all'' = 2
   \<and> count_loop example_net [''down.org'', ''x.org''] 2 fresh 0 =
       (3, \<lparr>visited = {''down.org'', ''x.org''}, requests = [''down.org'', ''x.org'']\<rparr>)
   \<and> countDNSLookups (failures_as_empty example_net)
         ''v=spf1 include:down.org include:x.org -all'' fresh 0 =
       (3, \<lparr>visited = {''down.org'', ''x.org''}, requests = [''down.org'', ''x.org'']\<rparr>)"
proof -
  note t = sub_failure_swallowed[of example_net "''v=spf1 include:down.org include:x.org -all''"
      fresh 0 "''down.org''" "[''x.org'']" 2]
  have nv: "''down.org'' \<notin> visited fresh" by (simp add: fresh_def)
  from t nv ex_down have "count_loop example_net [''down.org'', ''x.org''] 2 fresh 0 =
      count_loop example_net [''x.org''] 2 (visit ''down.org'' fresh) 0"
    by blast
  then have 1: "count_loop example_net [''down.org'', ''x.org''] 2 fresh 0 =
       (3, \<lparr>visited = {''down.org'', ''x.org''}, requests = [''down.org'', ''x.org'']\<rparr>)"
    by (simp only: down_rest)
  from t have 2: "countDNSLookups (failures_as_empty example_net)
         ''v=spf1 include:down.org include:x.org -all'' fresh 0 =
       (3, \<lparr>visited = {''down.org'', ''x.org''}, requests = [''down.org'', ''x.org'']\<rparr>)"
    by (simp only: down_run)
  from ex_down down_inc down_direct 1 2 show ?thesis by blast
qed

end
